theory Spec2Isabelle
  imports Complex_Main "HOL-Library.Word"
begin

section \<open>Non-maximum suppression on the CPU (csrc/cpu/nms\_cpu.cpp)\<close>

text \<open>
  The kernel \<open>nms_cpu_kernel<scalar_t>\<close> is a template over the scalar type of the
  box coordinates and scores.  The embedding is polymorphic in the same way: the scalar
  type is any linearly ordered field \<open>'a\<close>, so \<open>+\<close>, \<open>-\<close>, \<open>*\<close>, \<open>max\<close>, \<open>min\<close> and
  \<open>\<ge>\<close> are the exact operations on finite values.  Rounding, overflow and NaN or
  infinite inputs of \<open>float\<close> and \<open>double\<close> are outside the model.  The one place
  where the kernel can leave the finite values by itself, the division computing
  \<open>ovr\<close>, is written out as IEEE 754 division does it (see \<open>fdiv\<close>).  The threshold,
  a \<open>float\<close> in the source, is a value of the scalar type.  The indices, \<open>int64_t\<close> in
  the source and never negative, are natural numbers.
\<close>

subsection \<open>Data\<close>

text \<open>The scalar types of a tensor, and a tensor's type: its backend and scalar type.\<close>

datatype scalar_type = kByte | kChar | kShort | kInt | kLong | kHalf | kFloat | kDouble

record tensor_type =
  is_cuda :: bool
  dtype :: scalar_type

text \<open>A tensor is its type and its elements.  \<open>dets\<close> has shape \<open>[N, 4]\<close>: its elements
  are rows of four coordinates; \<open>scores\<close> has shape \<open>[N]\<close>.\<close>

record 'r tensor =
  ttype :: tensor_type
  tdata :: "'r list"

datatype 'a box = Box (x1: 'a) (y1: 'a) (x2: 'a) (y2: 'a)

text \<open>
  \<open>AssertFailed\<close> is the exception of \<open>AT_ASSERTM\<close>, \<open>NotImplemented\<close> the one of
  \<open>AT_DISPATCH_FLOATING_TYPES\<close> on a scalar type that is not floating.
  \<open>OutOfBounds\<close> stands for a read or write through a raw data pointer past the end of
  its buffer: undefined behaviour in C++, kept apart from every regular result.
\<close>

datatype error = AssertFailed string | NotImplemented string | OutOfBounds

text \<open>The result of a floating-point division whose operands are finite.\<close>

datatype 'a quotient = Finite 'a | PosInf | NegInf | NaN

definition fdiv :: "'a::linordered_field \<Rightarrow> 'a \<Rightarrow> 'a quotient" where
  "fdiv a b =
     (if b \<noteq> 0 then Finite (a / b)
      else if 0 < a then PosInf
      else if a < 0 then NegInf
      else NaN)"

text \<open>\<open>ovr >= threshold\<close>: every comparison with NaN is false.\<close>

fun ge_threshold :: "'a::linordered_field quotient \<Rightarrow> 'a \<Rightarrow> bool" where
  "ge_threshold (Finite v) threshold = (threshold \<le> v)"
| "ge_threshold PosInf threshold = True"
| "ge_threshold NegInf threshold = False"
| "ge_threshold NaN threshold = False"

subsection \<open>The kernel\<close>

text \<open>Line 25: \<open>areas_t = (x2_t - x1_t + 1) * (y2_t - y1_t + 1)\<close>, elementwise.\<close>

definition areas_t :: "'a::linordered_field box list \<Rightarrow> 'a list" where
  "areas_t dets = map (\<lambda>b. (x2 b - x1 b + 1) * (y2 b - y1 b + 1)) dets"

text \<open>Line 34: \<open>at::zeros({ndets})\<close> of bytes.\<close>

definition suppressed_t :: "nat \<Rightarrow> 8 word list" where
  "suppressed_t ndets = replicate ndets 0"

text \<open>
  Lines 66 to 77: \<open>ovr\<close> for the reference box \<open>i\<close> and the candidate \<open>j\<close>, from the
  corners of their intersection.
\<close>

definition ovr :: "'a::linordered_field box list \<Rightarrow> 'a list \<Rightarrow> nat \<Rightarrow> nat \<Rightarrow> 'a quotient" where
  "ovr dets areas i j =
     (let xx1 = max (x1 (dets ! i)) (x1 (dets ! j));
          yy1 = max (y1 (dets ! i)) (y1 (dets ! j));
          xx2 = min (x2 (dets ! i)) (x2 (dets ! j));
          yy2 = min (y2 (dets ! i)) (y2 (dets ! j));
          w = max 0 (xx2 - xx1 + 1);
          h = max 0 (yy2 - yy1 + 1);
          inter = w * h
      in fdiv inter (areas ! i + areas ! j - inter))"

text \<open>
  Lines 60 to 81, the body of the inner loop at ranking position \<open>rj\<close> (the source's
  \<open>_j\<close>) for the reference box \<open>i\<close>.  \<open>order\<close>, \<open>suppressed\<close> and the coordinate
  arrays are raw pointers; \<open>x1\<close>, \<open>y1\<close>, \<open>x2\<close>, \<open>y2\<close> and \<open>areas\<close> have as many elements
  as \<open>suppressed\<close>, so the reads at \<open>i\<close> and \<open>j\<close> are in range once the reads of
  \<open>suppressed\<close> are.
\<close>

definition inner_body ::
  "'a::linordered_field box list \<Rightarrow> 'a list \<Rightarrow> nat list \<Rightarrow> 'a \<Rightarrow> nat \<Rightarrow> nat \<Rightarrow>
     8 word list \<Rightarrow> error + 8 word list" where
  "inner_body dets areas order threshold i rj suppressed =
     (if length order \<le> rj then Inl OutOfBounds
      else
        let j = order ! rj in
        if length suppressed \<le> j then Inl OutOfBounds
        else if suppressed ! j = 1 then Inr suppressed
        else if ge_threshold (ovr dets areas i j) threshold then Inr (suppressed[j := 1])
        else Inr suppressed)"

text \<open>Line 59: \<open>for (_j = _i + 1; _j < ndets; _j++)\<close>, entered at \<open>rj\<close>.\<close>

function inner_loop ::
  "'a::linordered_field box list \<Rightarrow> 'a list \<Rightarrow> nat list \<Rightarrow> 'a \<Rightarrow> nat \<Rightarrow> nat \<Rightarrow> nat \<Rightarrow>
     8 word list \<Rightarrow> error + 8 word list" where
  "inner_loop dets areas order threshold ndets i rj suppressed =
     (if rj < ndets then
        (case inner_body dets areas order threshold i rj suppressed of
           Inl e \<Rightarrow> Inl e
         | Inr s \<Rightarrow> inner_loop dets areas order threshold ndets i (rj + 1) s)
      else Inr suppressed)"
  by pat_completeness auto
termination
  by (relation "measure (\<lambda>(dets, areas, order, threshold, ndets, i, rj, s). ndets - rj)") auto

text \<open>Lines 45 to 82, the body of the outer loop at ranking position \<open>ri\<close> (the
  source's \<open>_i\<close>).\<close>

definition outer_body ::
  "'a::linordered_field box list \<Rightarrow> 'a list \<Rightarrow> nat list \<Rightarrow> 'a \<Rightarrow> nat \<Rightarrow> nat \<Rightarrow>
     8 word list \<Rightarrow> error + 8 word list" where
  "outer_body dets areas order threshold ndets ri suppressed =
     (if length order \<le> ri then Inl OutOfBounds
      else
        let i = order ! ri in
        if length suppressed \<le> i then Inl OutOfBounds
        else if suppressed ! i = 1 then Inr suppressed
        else inner_loop dets areas order threshold ndets i (ri + 1) suppressed)"

text \<open>Line 44: \<open>for (_i = 0; _i < ndets; _i++)\<close>, entered at \<open>ri\<close>.\<close>

function outer_loop ::
  "'a::linordered_field box list \<Rightarrow> 'a list \<Rightarrow> nat list \<Rightarrow> 'a \<Rightarrow> nat \<Rightarrow> nat \<Rightarrow>
     8 word list \<Rightarrow> error + 8 word list" where
  "outer_loop dets areas order threshold ndets ri suppressed =
     (if ri < ndets then
        (case outer_body dets areas order threshold ndets ri suppressed of
           Inl e \<Rightarrow> Inl e
         | Inr s \<Rightarrow> outer_loop dets areas order threshold ndets (ri + 1) s)
      else Inr suppressed)"
  by pat_completeness auto
termination
  by (relation "measure (\<lambda>(dets, areas, order, threshold, ndets, ri, s). ndets - ri)") auto

text \<open>Line 86: \<open>at::nonzero(suppressed_t == 0).squeeze(1)\<close>, the positions of the
  flags that are 0, ascending.\<close>

definition nonzero_eq0 :: "8 word list \<Rightarrow> nat list" where
  "nonzero_eq0 suppressed = filter (\<lambda>k. suppressed ! k = 0) [0..<length suppressed]"

text \<open>
  Lines 6 to 87.  \<open>scores.sort(0, /* descending=*/true)\<close> belongs to the tensor
  library, not to this repository: the kernel takes the function that returns the
  sorted indices as its parameter \<open>srt\<close>, and the theorems assume of it what the library
  promises (\<open>desc_order\<close> below).
\<close>

definition nms_cpu_kernel ::
  "('a::linordered_field list \<Rightarrow> nat list) \<Rightarrow> 'a box tensor \<Rightarrow> 'a tensor \<Rightarrow> 'a \<Rightarrow>
     error + nat list" where
  "nms_cpu_kernel srt dets scores threshold =
     (if is_cuda (ttype dets) then Inl (AssertFailed ''dets must be a CPU tensor'')
      else if is_cuda (ttype scores) then Inl (AssertFailed ''scores must be a CPU tensor'')
      else if ttype dets \<noteq> ttype scores
        then Inl (AssertFailed ''dets should have the same type as scores'')
      else if tdata dets = [] then Inr []
      else
        let areas = areas_t (tdata dets);
            order = srt (tdata scores);
            ndets = length (tdata dets)
        in case outer_loop (tdata dets) areas order threshold ndets 0 (suppressed_t ndets) of
             Inl e \<Rightarrow> Inl e
           | Inr suppressed \<Rightarrow> Inr (nonzero_eq0 suppressed))"

text \<open>Lines 91 to 106: the dispatch on the scalar type of \<open>dets\<close>.\<close>

definition nms_cpu ::
  "('a::linordered_field list \<Rightarrow> nat list) \<Rightarrow> 'a box tensor \<Rightarrow> 'a tensor \<Rightarrow> 'a \<Rightarrow>
     error + nat list" where
  "nms_cpu srt dets scores threshold =
     (if dtype (ttype dets) = kFloat \<or> dtype (ttype dets) = kDouble
      then nms_cpu_kernel srt dets scores threshold
      else Inl (NotImplemented ''nms''))"

subsection \<open>The contract of the library sort\<close>

text \<open>
  \<open>desc_order scores order\<close>: \<open>order\<close> lists every index of \<open>scores\<close> once, by
  descending score.  Equal scores may come in any order.
\<close>

definition desc_order :: "'a::linorder list \<Rightarrow> nat list \<Rightarrow> bool" where
  "desc_order scores order \<longleftrightarrow>
     length order = length scores \<and> distinct order \<and>
     list_all (\<lambda>k. k < length scores) order \<and>
     sorted_wrt (\<lambda>i j. scores ! j \<le> scores ! i) order"

text \<open>One sort that keeps the contract: a stable insertion sort of the indices.\<close>

definition insert_desc :: "'a::linorder list \<Rightarrow> nat \<Rightarrow> nat list \<Rightarrow> nat list" where
  "insert_desc scores k acc =
     takeWhile (\<lambda>m. scores ! k < scores ! m) acc @ k # dropWhile (\<lambda>m. scores ! k < scores ! m) acc"

definition argsort_desc :: "'a::linorder list \<Rightarrow> nat list" where
  "argsort_desc scores = foldr (insert_desc scores) [0..<length scores] []"

subsection \<open>The algorithm in the words of the specification\<close>

text \<open>
  The specification's data model and its steps 1 to 5, on a set of suppressed indices:
  the area of a box, the intersection of two boxes, their overlap \<open>ovr\<close>, the pass of a
  reference box \<open>i\<close> over the later positions of the order, and the pass over the order.
\<close>

definition spec_area :: "'a::linordered_field box \<Rightarrow> 'a" where
  "spec_area b = (x2 b - x1 b + 1) * (y2 b - y1 b + 1)"

definition spec_inter :: "'a::linordered_field box \<Rightarrow> 'a box \<Rightarrow> 'a" where
  "spec_inter bi bj =
     max 0 (min (x2 bi) (x2 bj) - max (x1 bi) (x1 bj) + 1) *
     max 0 (min (y2 bi) (y2 bj) - max (y1 bi) (y1 bj) + 1)"

definition spec_ovr :: "'a::linordered_field box \<Rightarrow> 'a box \<Rightarrow> 'a quotient" where
  "spec_ovr bi bj = fdiv (spec_inter bi bj) (spec_area bi + spec_area bj - spec_inter bi bj)"

definition spec_suppresses :: "'a::linordered_field box \<Rightarrow> 'a box \<Rightarrow> 'a \<Rightarrow> bool" where
  "spec_suppresses bi bj threshold = ge_threshold (spec_ovr bi bj) threshold"

fun spec_inner :: "'a::linordered_field box list \<Rightarrow> 'a \<Rightarrow> nat \<Rightarrow> nat list \<Rightarrow> nat set \<Rightarrow> nat set" where
  "spec_inner boxes threshold i [] S = S"
| "spec_inner boxes threshold i (j # later) S =
     spec_inner boxes threshold i later
       (if j \<in> S then S
        else if spec_suppresses (boxes ! i) (boxes ! j) threshold then insert j S
        else S)"

fun spec_outer :: "'a::linordered_field box list \<Rightarrow> 'a \<Rightarrow> nat list \<Rightarrow> nat set \<Rightarrow> nat set" where
  "spec_outer boxes threshold [] S = S"
| "spec_outer boxes threshold (i # later) S =
     (if i \<in> S then spec_outer boxes threshold later S
      else spec_outer boxes threshold later (spec_inner boxes threshold i later S))"

definition spec_kept :: "'a::linordered_field box list \<Rightarrow> nat list \<Rightarrow> 'a \<Rightarrow> nat list" where
  "spec_kept boxes order threshold =
     filter (\<lambda>k. k \<notin> spec_outer boxes threshold order {}) [0..<length boxes]"

text \<open>The indices whose flag is set, and the precondition of the kernel's assertions.\<close>

definition flagged :: "8 word list \<Rightarrow> nat set" where
  "flagged suppressed = set (filter (\<lambda>k. suppressed ! k = 1) [0..<length suppressed])"

definition asserts_pass :: "'r tensor \<Rightarrow> 's tensor \<Rightarrow> bool" where
  "asserts_pass dets scores \<longleftrightarrow>
     \<not> is_cuda (ttype dets) \<and> \<not> is_cuda (ttype scores) \<and> ttype dets = ttype scores"

text \<open>\<open>flags_only_set s s'\<close>: from \<open>s\<close> to \<open>s'\<close> every flag kept its value or went
  from 0 to 1.\<close>

definition flags_only_set :: "8 word list \<Rightarrow> 8 word list \<Rightarrow> bool" where
  "flags_only_set s s' \<longleftrightarrow>
     length s' = length s \<and> list_all (\<lambda>k. s' ! k = s ! k \<or> s ! k = 0 \<and> s' ! k = 1) [0..<length s]"


subsection \<open>Selecting rows, and the inputs of the examples\<close>

text \<open>\<open>index_select t kept\<close> is the tensor of the elements of \<open>t\<close> at the indices
  \<open>kept\<close>, in that order: what a caller passes to run the kernel again on the boxes
  it kept.\<close>

definition index_select :: "'r tensor \<Rightarrow> nat list \<Rightarrow> 'r tensor" where
  "index_select t kept = t\<lparr>tdata := map (\<lambda>k. tdata t ! k) kept\<rparr>"

definition cpu_float :: tensor_type where
  "cpu_float = \<lparr>is_cuda = False, dtype = kFloat\<rparr>"

text \<open>The specification's scenario: A, B and C at the indices 0, 1 and 2.\<close>

definition dets_abc :: "real box tensor" where
  "dets_abc = \<lparr>ttype = cpu_float,
                tdata = [Box 0 0 10 10, Box 1 1 11 11, Box 50 50 60 60]\<rparr>"

definition scores_abc :: "real tensor" where
  "scores_abc = \<lparr>ttype = cpu_float, tdata = [9 / 10, 8 / 10, 95 / 100]\<rparr>"

text \<open>Four boxes: the second covers the third and the fourth, which hardly meet, and
  is itself half covered by the first.\<close>

definition dets_four :: "real box tensor" where
  "dets_four = \<lparr>ttype = cpu_float,
                 tdata = [Box 0 5 9 14, Box 0 0 9 9, Box 0 0 5 9, Box 4 0 9 9]\<rparr>"

definition scores_four :: "real tensor" where
  "scores_four = \<lparr>ttype = cpu_float, tdata = [9 / 10, 8 / 10, 7 / 10, 6 / 10]\<rparr>"



definition dets_none :: "real box tensor" where
  "dets_none = \<lparr>ttype = cpu_float, tdata = []\<rparr>"

definition scores_one :: "real tensor" where
  "scores_one = \<lparr>ttype = cpu_float, tdata = [9 / 10]\<rparr>"


section \<open>The kernel computes the specification's algorithm\<close>

declare inner_loop.simps [simp del] outer_loop.simps [simp del]

lemma flagged_eq: "flagged s = {k. k < length s \<and> s ! k = 1}"
  by (auto simp: flagged_def)

lemma spec_inner_eq:
  "spec_inner boxes t i js S = S \<union> {j \<in> set js. spec_suppresses (boxes ! i) (boxes ! j) t}"
  by (induction js arbitrary: S) auto

lemma flagged_update:
  "j < length s \<Longrightarrow> flagged (s[j := 1]) = insert j (flagged s)"
  by (auto simp: flagged_eq nth_list_update)

lemma ovr_spec:
  "i < length dets \<Longrightarrow> j < length dets \<Longrightarrow>
     ovr dets (areas_t dets) i j = spec_ovr (dets ! i) (dets ! j)"
  by (simp add: ovr_def Let_def spec_ovr_def spec_inter_def spec_area_def areas_t_def)

lemma inner_body_ok:
  assumes "rj < length order" "order ! rj < length s" "areas = areas_t dets"
    "i < length dets" "length s = length dets" "set s \<subseteq> {0,1}"
  shows "\<exists>s'. inner_body dets areas order t i rj s = Inr s' \<and> length s' = length s \<and> set s' \<subseteq> {0,1}
      \<and> flagged s' = spec_inner dets t i [order ! rj] (flagged s)"
proof -
  let ?j = "order ! rj"
  have ov: "ge_threshold (ovr dets areas i ?j) t = spec_suppresses (dets ! i) (dets ! ?j) t"
    using assms by (simp add: spec_suppresses_def ovr_spec)
  have sub: "set (s[?j := 1]) \<subseteq> {0,1}"
    using assms(6) set_update_subset_insert[of s ?j 1] by auto
  show ?thesis
    using assms ov sub
    by (auto simp: inner_body_def Let_def flagged_update) (auto simp: flagged_eq)
qed

lemma inner_loop_ok:
  assumes "length order = ndets" "list_all (\<lambda>k. k < ndets) order" "areas = areas_t dets"
    "i < ndets" "length dets = ndets"
  shows "length s = ndets \<Longrightarrow> set s \<subseteq> {0,1} \<Longrightarrow> rj \<le> ndets \<Longrightarrow>
     \<exists>s'. inner_loop dets areas order t ndets i rj s = Inr s' \<and> length s' = ndets \<and> set s' \<subseteq> {0,1}
      \<and> flagged s' = spec_inner dets t i (drop rj order) (flagged s)"
proof (induction "ndets - rj" arbitrary: rj s)
  case 0
  then have "rj = ndets" by simp
  then show ?case using assms 0 by (simp add: inner_loop.simps)
next
  case (Suc d)
  then have lt: "rj < ndets" by simp
  then have oj: "order ! rj < length s"
    using assms(1,2) Suc.prems(1) by (simp add: list_all_length)
  obtain s1 where s1: "inner_body dets areas order t i rj s = Inr s1" "length s1 = length s"
      "set s1 \<subseteq> {0,1}" "flagged s1 = spec_inner dets t i [order ! rj] (flagged s)"
    using inner_body_ok[of rj order s areas dets i t] lt oj assms Suc.prems by auto
  have "d = ndets - (rj + 1)" using Suc.hyps(2) by simp
  from Suc.hyps(1)[OF this, of s1] obtain s' where s': 
    "inner_loop dets areas order t ndets i (rj + 1) s1 = Inr s'" "length s' = ndets" "set s' \<subseteq> {0,1}"
    "flagged s' = spec_inner dets t i (drop (rj + 1) order) (flagged s1)"
    using s1 Suc.prems lt by auto
  have dr: "drop rj order = order ! rj # drop (rj + 1) order"
    using lt assms(1) by (simp add: Cons_nth_drop_Suc)
  have "inner_loop dets areas order t ndets i rj s = Inr s'"
    using lt s1(1) s'(1) by (subst inner_loop.simps) simp
  moreover have "flagged s' = spec_inner dets t i (drop rj order) (flagged s)"
    using s'(4) s1(4) dr by simp
  ultimately show ?case using s' by blast
qed

lemma outer_loop_ok:
  assumes "length order = ndets" "list_all (\<lambda>k. k < ndets) order" "areas = areas_t dets"
    "length dets = ndets"
  shows "length s = ndets \<Longrightarrow> set s \<subseteq> {0,1} \<Longrightarrow> ri \<le> ndets \<Longrightarrow>
     \<exists>s'. outer_loop dets areas order t ndets ri s = Inr s' \<and> length s' = ndets \<and> set s' \<subseteq> {0,1}
      \<and> flagged s' = spec_outer dets t (drop ri order) (flagged s)"
proof (induction "ndets - ri" arbitrary: ri s)
  case 0
  then have "ri = ndets" by simp
  then show ?case using assms 0 by (simp add: outer_loop.simps)
next
  case (Suc d)
  then have lt: "ri < ndets" by simp
  then have oi: "order ! ri < ndets"
    using assms(1,2) by (simp add: list_all_length)
  have dr: "drop ri order = order ! ri # drop (ri + 1) order"
    using lt assms(1) by (simp add: Cons_nth_drop_Suc)
  have "\<exists>s1. outer_body dets areas order t ndets ri s = Inr s1 \<and> length s1 = ndets \<and> set s1 \<subseteq> {0,1}
     \<and> flagged s1 = (if order ! ri \<in> flagged s then flagged s
                      else spec_inner dets t (order ! ri) (drop (ri + 1) order) (flagged s))"
  proof (cases "s ! (order ! ri) = 1")
    case True
    then show ?thesis using lt oi assms Suc.prems
      by (simp add: outer_body_def flagged_eq)
  next
    case False
    then have nf: "order ! ri \<notin> flagged s" by (simp add: flagged_eq)
    show ?thesis
      using inner_loop_ok[OF assms(1,2,3) oi assms(4) Suc.prems(1,2), of "ri + 1" t] lt oi False nf assms Suc.prems
      by (simp add: outer_body_def)
  qed
  then obtain s1 where s1: "outer_body dets areas order t ndets ri s = Inr s1" "length s1 = ndets"
     "set s1 \<subseteq> {0,1}" "flagged s1 = (if order ! ri \<in> flagged s then flagged s
                      else spec_inner dets t (order ! ri) (drop (ri + 1) order) (flagged s))"
    by blast
  have "d = ndets - (ri + 1)" using Suc.hyps(2) by simp
  from Suc.hyps(1)[OF this, of s1] obtain s' where s':
    "outer_loop dets areas order t ndets (ri + 1) s1 = Inr s'" "length s' = ndets" "set s' \<subseteq> {0,1}"
    "flagged s' = spec_outer dets t (drop (ri + 1) order) (flagged s1)"
    using s1 lt by auto
  have "outer_loop dets areas order t ndets ri s = Inr s'"
    using lt s1(1) s'(1) by (subst outer_loop.simps) simp
  moreover have "flagged s' = spec_outer dets t (drop ri order) (flagged s)"
    using s'(4) s1(4) dr by simp
  ultimately show ?case using s' by blast
qed

lemma nonzero_eq0_flagged:
  "set s \<subseteq> {0,1} \<Longrightarrow> nonzero_eq0 s = filter (\<lambda>k. k \<notin> flagged s) [0..<length s]"
proof -
  assume a: "set s \<subseteq> {0,1}"
  have "s ! k = 0 \<longleftrightarrow> k \<notin> flagged s" if "k \<in> set [0..<length s]" for k
  proof -
    from that have "s ! k \<in> set s" by simp
    with a have "s ! k = 0 \<or> s ! k = 1" by auto
    then show ?thesis using that by (auto simp: flagged_eq)
  qed
  then show ?thesis
    unfolding nonzero_eq0_def by (intro filter_cong refl)
qed

lemma flagged_init: "flagged (suppressed_t n) = {}"
  by (auto simp: flagged_eq suppressed_t_def)

lemma kernel_refines:
  assumes "asserts_pass dets scores" "length (tdata dets) = length (tdata scores)"
    "desc_order (tdata scores) (srt (tdata scores))"
  shows "nms_cpu_kernel srt dets scores t = Inr (spec_kept (tdata dets) (srt (tdata scores)) t)"
proof (cases "tdata dets = []")
  case True
  then show ?thesis using assms(1)
    by (simp add: nms_cpu_kernel_def asserts_pass_def spec_kept_def)
next
  case False
  let ?n = "length (tdata dets)"
  have o: "length (srt (tdata scores)) = ?n" "list_all (\<lambda>k. k < ?n) (srt (tdata scores))"
    using assms(2,3) by (simp_all add: desc_order_def)
  have "length (suppressed_t ?n) = ?n" "set (suppressed_t ?n) \<subseteq> {0,1}"
    by (auto simp: suppressed_t_def)
  from outer_loop_ok[OF o refl refl this, of 0 t]
  obtain s' where s': "outer_loop (tdata dets) (areas_t (tdata dets)) (srt (tdata scores)) t ?n 0 (suppressed_t ?n) = Inr s'"
     "length s' = ?n" "set s' \<subseteq> {0,1}" "flagged s' = spec_outer (tdata dets) t (srt (tdata scores)) {}"
    by (auto simp: flagged_init)
  show ?thesis using False assms(1) s'
    by (simp add: nms_cpu_kernel_def asserts_pass_def spec_kept_def nonzero_eq0_flagged)
qed

subsection \<open>The pass over the order, and the sort\<close>

lemma spec_outer_mono: "S \<subseteq> spec_outer boxes t ord S"
proof (induction ord arbitrary: S)
  case Nil
  then show ?case by simp
next
  case (Cons i later)
  have "S \<subseteq> spec_inner boxes t i later S" by (auto simp: spec_inner_eq)
  with Cons[of S] Cons[of "spec_inner boxes t i later S"] show ?case by auto
qed

lemma spec_outer_later: "spec_outer boxes t ord S \<subseteq> S \<union> set (tl ord)"
proof (induction ord arbitrary: S)
  case Nil
  then show ?case by simp
next
  case (Cons i later)
  have "set (tl later) \<subseteq> set later" by (cases later) auto
  with Cons[of S] Cons[of "spec_inner boxes t i later S"] show ?case
    by (auto simp: spec_inner_eq)
qed

lemma spec_outer_head_kept:
  "distinct (i # later) \<Longrightarrow> i \<notin> S \<Longrightarrow> i \<notin> spec_outer boxes t (i # later) S"
  using spec_outer_later[of boxes t "i # later" S] by auto

lemma desc_order_set:
  assumes "desc_order scores order"
  shows "set order = {0..<length scores}"
proof -
  have "set order \<subseteq> {0..<length scores}"
    using assms by (auto simp: desc_order_def list_all_iff)
  moreover have "card (set order) = card {0..<length scores}"
    using assms by (simp add: desc_order_def distinct_card)
  ultimately show ?thesis by (simp add: card_subset_eq)
qed

lemma desc_order_head_max:
  assumes "desc_order scores order" "k < length scores"
  shows "order \<noteq> [] \<and> scores ! k \<le> scores ! (order ! 0)"
proof (cases order)
  case Nil
  then show ?thesis using assms by (simp add: desc_order_def)
next
  case (Cons i later)
  have "k \<in> set order" using desc_order_set[OF assms(1)] assms(2) by simp
  moreover have "\<forall>j\<in>set later. scores ! j \<le> scores ! i"
    using assms(1) Cons by (simp add: desc_order_def)
  ultimately show ?thesis using Cons by auto
qed

lemma spec_kept_mem:
  "k \<in> set (spec_kept boxes ord t) \<longleftrightarrow> k < length boxes \<and> k \<notin> spec_outer boxes t ord {}"
  by (auto simp: spec_kept_def)

lemma insert_desc_props:
  fixes scores :: "'a::linorder list"
  assumes "sorted_wrt (\<lambda>i j. scores ! j \<le> scores ! i) acc"
  shows "set (insert_desc scores k acc) = insert k (set acc)"
    and "length (insert_desc scores k acc) = Suc (length acc)"
    and "distinct acc \<Longrightarrow> k \<notin> set acc \<Longrightarrow> distinct (insert_desc scores k acc)"
    and "sorted_wrt (\<lambda>i j. scores ! j \<le> scores ! i) (insert_desc scores k acc)"
proof -
  let ?P = "\<lambda>m. scores ! k < scores ! m"
  define ys where "ys = takeWhile ?P acc"
  define zs where "zs = dropWhile ?P acc"
  have acc: "acc = ys @ zs" by (simp add: ys_def zs_def)
  have ins: "insert_desc scores k acc = ys @ k # zs"
    by (simp add: insert_desc_def ys_def zs_def)
  have ys: "\<forall>m\<in>set ys. scores ! k < scores ! m"
    by (auto simp: ys_def dest: set_takeWhileD)
  have zs: "\<forall>m\<in>set zs. scores ! m \<le> scores ! k"
  proof (cases zs)
    case Nil
    then show ?thesis by simp
  next
    case (Cons m ms)
    then have "\<not> ?P m" using hd_dropWhile[of ?P acc] by (simp add: zs_def)
    moreover have "\<forall>m'\<in>set ms. scores ! m' \<le> scores ! m"
      using assms acc Cons by (simp add: sorted_wrt_append)
    ultimately show ?thesis using Cons by (auto intro: order_trans)
  qed
  show "set (insert_desc scores k acc) = insert k (set acc)"
    unfolding ins unfolding acc by auto
  show "length (insert_desc scores k acc) = Suc (length acc)"
    unfolding ins unfolding acc by simp
  show "distinct (insert_desc scores k acc)" if "distinct acc" "k \<notin> set acc"
    using that unfolding ins unfolding acc by auto
  have "scores ! k \<le> scores ! m" if "m \<in> set ys" for m
    using ys that by (auto intro: less_imp_le)
  then show "sorted_wrt (\<lambda>i j. scores ! j \<le> scores ! i) (insert_desc scores k acc)"
    using assms zs unfolding ins unfolding acc by (auto simp: sorted_wrt_append)
qed

lemma argsort_desc_aux:
  "set (foldr (insert_desc scores) ks []) = set ks \<and>
   length (foldr (insert_desc scores) ks []) = length ks \<and>
   (distinct ks \<longrightarrow> distinct (foldr (insert_desc scores) ks [])) \<and>
   sorted_wrt (\<lambda>i j. scores ! j \<le> scores ! i) (foldr (insert_desc scores) ks [])"
  by (induction ks) (auto simp: insert_desc_props)

lemma argsort_desc_ok: "desc_order scores (argsort_desc scores)"
  using argsort_desc_aux[of scores "[0..<length scores]"]
  by (auto simp: desc_order_def argsort_desc_def list_all_iff)

subsection \<open>Well-formed boxes at threshold 0\<close>

lemma spec_outer_all_flagged:
  "set ord \<subseteq> S \<Longrightarrow> spec_outer boxes t ord S = S"
  by (induction ord arbitrary: S) auto

lemma filter_upt_single: "i < n \<Longrightarrow> filter (\<lambda>k. k = i) [0..<n] = [i]"
proof (induction n)
  case 0
  then show ?case by simp
next
  case (Suc n)
  show ?case
  proof (cases "i = n")
    case True
    have "filter (\<lambda>k. k = n) [0..<n] = []" by (simp add: filter_empty_conv)
    with True show ?thesis by simp
  next
    case False
    with Suc show ?thesis by simp
  qed
qed



subsection \<open>Running the loops on given arrays\<close>

lemma inner_loop_step:
  "rj < ndets \<Longrightarrow> inner_loop dets areas order t ndets i rj s =
     (case inner_body dets areas order t i rj s of Inl e \<Rightarrow> Inl e
      | Inr s' \<Rightarrow> inner_loop dets areas order t ndets i (rj + 1) s')"
  by (subst inner_loop.simps) simp

lemma inner_loop_done:
  "\<not> rj < ndets \<Longrightarrow> inner_loop dets areas order t ndets i rj s = Inr s"
  by (subst inner_loop.simps) simp

lemma outer_loop_step:
  "ri < ndets \<Longrightarrow> outer_loop dets areas order t ndets ri s =
     (case outer_body dets areas order t ndets ri s of Inl e \<Rightarrow> Inl e
      | Inr s' \<Rightarrow> outer_loop dets areas order t ndets (ri + 1) s')"
  by (subst outer_loop.simps) simp

lemma outer_loop_done:
  "\<not> ri < ndets \<Longrightarrow> outer_loop dets areas order t ndets ri s = Inr s"
  by (subst outer_loop.simps) simp

lemmas run_simps = inner_loop_step inner_loop_done outer_loop_step outer_loop_done
  inner_body_def ovr_def outer_body_def nms_cpu_kernel_def areas_t_def suppressed_t_def
  nonzero_eq0_def
  argsort_desc_def insert_desc_def fdiv_def Let_def cpu_float_def upt_rec eval_nat_numeral

subsection \<open>The flags only go from 0 to 1\<close>

lemma flags_only_set_iff:
  "flags_only_set s s' \<longleftrightarrow>
     length s' = length s \<and> (\<forall>k<length s. s' ! k = s ! k \<or> s ! k = 0 \<and> s' ! k = 1)"
  by (auto simp: flags_only_set_def list_all_iff)

lemma flags_only_set_refl: "flags_only_set s s"
  by (simp add: flags_only_set_iff)

lemma flags_only_set_trans:
  "flags_only_set s s1 \<Longrightarrow> flags_only_set s1 s2 \<Longrightarrow> flags_only_set s s2"
  unfolding flags_only_set_iff by (metis zero_neq_one)

lemma inner_body_flags:
  assumes "set s \<subseteq> {0,1}" "inner_body dets areas order t i rj s = Inr s'"
  shows "set s' \<subseteq> {0,1} \<and> flags_only_set s s'"
proof -
  let ?j = "order ! rj"
  have upd: "set (s[?j := 1]) \<subseteq> {0,1} \<and> flags_only_set s (s[?j := 1])"
    if "?j < length s" "s ! ?j \<noteq> 1"
  proof -
    have "s ! ?j \<in> set s" using that(1) by simp
    then have z: "s ! ?j = 0" using assms(1) that(2) by auto
    have "s[?j := 1] ! k = s ! k \<or> s ! k = 0 \<and> s[?j := 1] ! k = 1" if "k < length s" for k
      using z that by (cases "k = ?j") simp_all
    moreover have "set (s[?j := 1]) \<subseteq> {0,1}"
      using assms(1) set_update_subset_insert[of s ?j 1] by auto
    ultimately show ?thesis
      by (simp add: flags_only_set_iff)
  qed
  show ?thesis
    using assms upd
    by (auto simp: inner_body_def Let_def flags_only_set_refl split: if_splits)
qed

lemma inner_loop_flags:
  "set s \<subseteq> {0,1} \<Longrightarrow> inner_loop dets areas order t ndets i rj s = Inr s' \<Longrightarrow>
     set s' \<subseteq> {0,1} \<and> flags_only_set s s'"
proof (induction "ndets - rj" arbitrary: rj s)
  case 0
  then show ?case by (simp add: inner_loop_done flags_only_set_refl)
next
  case (Suc d)
  then have lt: "rj < ndets" by simp
  from Suc.prems(2) obtain s1 where s1: "inner_body dets areas order t i rj s = Inr s1"
      "inner_loop dets areas order t ndets i (rj + 1) s1 = Inr s'"
    by (auto simp: inner_loop_step[OF lt] split: sum.splits)
  have b: "set s1 \<subseteq> {0,1} \<and> flags_only_set s s1"
    using inner_body_flags[OF Suc.prems(1) s1(1)] .
  have "d = ndets - (rj + 1)" using Suc.hyps(2) by simp
  from Suc.hyps(1)[OF this _ s1(2)] b have "set s' \<subseteq> {0,1} \<and> flags_only_set s1 s'" by simp
  with b show ?case by (auto intro: flags_only_set_trans)
qed

lemma outer_body_flags:
  "set s \<subseteq> {0,1} \<Longrightarrow> outer_body dets areas order t ndets ri s = Inr s' \<Longrightarrow>
     set s' \<subseteq> {0,1} \<and> flags_only_set s s'"
  by (auto simp: outer_body_def Let_def flags_only_set_refl split: if_splits
      dest: inner_loop_flags)

lemma outer_loop_flags:
  "set s \<subseteq> {0,1} \<Longrightarrow> outer_loop dets areas order t ndets ri s = Inr s' \<Longrightarrow>
     set s' \<subseteq> {0,1} \<and> flags_only_set s s'"
proof (induction "ndets - ri" arbitrary: ri s)
  case 0
  then show ?case by (simp add: outer_loop_done flags_only_set_refl)
next
  case (Suc d)
  then have lt: "ri < ndets" by simp
  from Suc.prems(2) obtain s1 where s1: "outer_body dets areas order t ndets ri s = Inr s1"
      "outer_loop dets areas order t ndets (ri + 1) s1 = Inr s'"
    by (auto simp: outer_loop_step[OF lt] split: sum.splits)
  have b: "set s1 \<subseteq> {0,1} \<and> flags_only_set s s1"
    using outer_body_flags[OF Suc.prems(1) s1(1)] .
  have "d = ndets - (ri + 1)" using Suc.hyps(2) by simp
  from Suc.hyps(1)[OF this _ s1(2)] b have "set s' \<subseteq> {0,1} \<and> flags_only_set s1 s'" by simp
  with b show ?case by (auto intro: flags_only_set_trans)
qed

subsection \<open>Kept boxes do not suppress each other; two thresholds\<close>

lemma spec_suppresses_sym: "spec_suppresses bi bj t = spec_suppresses bj bi t"
  by (simp add: spec_suppresses_def spec_ovr_def spec_inter_def min.commute max.commute
      add.commute)

lemma spec_suppresses_antimono:
  "t1 \<le> t2 \<Longrightarrow> spec_suppresses bi bj t2 \<Longrightarrow> spec_suppresses bi bj t1"
  unfolding spec_suppresses_def by (cases "spec_ovr bi bj") auto

lemma kept_pairs_apart:
  "spec_outer boxes t ord S \<subseteq> R \<Longrightarrow>
     sorted_wrt (\<lambda>i j. i \<notin> R \<and> j \<notin> R \<longrightarrow> \<not> spec_suppresses (boxes ! i) (boxes ! j) t) ord"
proof (induction ord arbitrary: S)
  case Nil
  then show ?case by simp
next
  case (Cons i later)
  show ?case
  proof (cases "i \<in> S")
    case True
    then have "i \<in> R" using Cons.prems spec_outer_mono[of S boxes t "i # later"] by auto
    moreover have "spec_outer boxes t later S \<subseteq> R" using Cons.prems True by simp
    ultimately show ?thesis using Cons.IH[of S] by simp
  next
    case False
    let ?S' = "spec_inner boxes t i later S"
    have sub: "spec_outer boxes t later ?S' \<subseteq> R" using Cons.prems False by simp
    then have "?S' \<subseteq> R" using spec_outer_mono[of ?S' boxes t later] by auto
    then have "\<not> spec_suppresses (boxes ! i) (boxes ! j) t" if "j \<in> set later" "j \<notin> R" for j
      using that by (auto simp: spec_inner_eq)
    then show ?thesis using Cons.IH[OF sub] by auto
  qed
qed

lemma kept_do_not_suppress:
  assumes "distinct ord" "a \<in> set ord" "b \<in> set ord" "a \<noteq> b"
    "a \<notin> spec_outer boxes t ord S" "b \<notin> spec_outer boxes t ord S"
  shows "\<not> spec_suppresses (boxes ! a) (boxes ! b) t"
proof -
  let ?R = "spec_outer boxes t ord S"
  let ?P = "\<lambda>i j. i \<notin> ?R \<and> j \<notin> ?R \<longrightarrow> \<not> spec_suppresses (boxes ! i) (boxes ! j) t"
  have sw: "sorted_wrt ?P ord" by (rule kept_pairs_apart[of boxes t ord S]) simp
  from assms(2,3) obtain p q where pq: "p < length ord" "ord ! p = a" "q < length ord" "ord ! q = b"
    by (auto simp: in_set_conv_nth)
  with assms(4) have "p < q \<or> q < p" by (cases p q rule: linorder_cases) auto
  then show ?thesis
  proof
    assume "p < q"
    then have "?P (ord ! p) (ord ! q)" using sw pq(3) by (simp add: sorted_wrt_iff_nth_less)
    then show ?thesis using pq assms(5,6) by simp
  next
    assume "q < p"
    then have "?P (ord ! q) (ord ! p)" using sw pq(1) by (simp add: sorted_wrt_iff_nth_less)
    then show ?thesis using pq assms(5,6) spec_suppresses_sym[of "boxes ! a" "boxes ! b" t] by simp
  qed
qed

lemma spec_outer_apart:
  "distinct ord \<Longrightarrow>
   (\<And>i j. i \<in> set ord \<Longrightarrow> j \<in> set ord \<Longrightarrow> i \<noteq> j \<Longrightarrow>
      \<not> spec_suppresses (boxes ! i) (boxes ! j) t) \<Longrightarrow>
   spec_outer boxes t ord S = S"
proof (induction ord arbitrary: S)
  case Nil
  then show ?case by simp
next
  case (Cons i later)
  have "spec_inner boxes t i later S = S"
    using Cons.prems by (auto simp: spec_inner_eq)
  moreover have "spec_outer boxes t later S = S"
    using Cons.prems by (intro Cons.IH) auto
  ultimately show ?case by simp
qed

lemma spec_outer_all_marked:
  "distinct ord \<Longrightarrow> set ord \<subseteq> spec_outer boxes t ord S \<Longrightarrow> set ord \<subseteq> S"
proof (induction ord arbitrary: S)
  case Nil
  then show ?case by simp
next
  case (Cons j later)
  have "j \<in> spec_outer boxes t (j # later) S" using Cons.prems(2) by simp
  then have j: "j \<in> S"
    using spec_outer_head_kept[OF Cons.prems(1), of S boxes t] by blast
  then have "set later \<subseteq> spec_outer boxes t later S" using Cons.prems(2) by simp
  then have "set later \<subseteq> S" using Cons.IH[of S] Cons.prems(1) by simp
  with j show ?case by simp
qed

lemma spec_outer_unchanged_mono:
  "t1 \<le> t2 \<Longrightarrow> spec_outer boxes t1 ord S = S \<Longrightarrow> spec_outer boxes t2 ord S = S"
proof (induction ord arbitrary: S)
  case Nil
  then show ?case by simp
next
  case (Cons i later)
  show ?case
  proof (cases "i \<in> S")
    case True
    then show ?thesis using Cons by simp
  next
    case False
    let ?S1 = "spec_inner boxes t1 i later S"
    let ?S2 = "spec_inner boxes t2 i later S"
    have r: "spec_outer boxes t1 later ?S1 = S" using Cons.prems(2) False by simp
    have "S \<subseteq> ?S1" by (auto simp: spec_inner_eq)
    moreover have "?S1 \<subseteq> S" using spec_outer_mono[of ?S1 boxes t1 later] r by simp
    ultimately have s1: "?S1 = S" by auto
    have "?S2 \<subseteq> ?S1"
      using spec_suppresses_antimono[OF Cons.prems(1)] by (auto simp: spec_inner_eq)
    moreover have "S \<subseteq> ?S2" by (auto simp: spec_inner_eq)
    ultimately have s2: "?S2 = S" using s1 by auto
    have "spec_outer boxes t2 later S = S" using Cons.IH[OF Cons.prems(1)] r s1 by simp
    then show ?thesis using False s2 by simp
  qed
qed

lemma spec_kept_props:
  "distinct (spec_kept boxes ord t)"
  "length (spec_kept boxes ord t) \<le> length boxes"
  using length_filter_le[of "\<lambda>k. k \<notin> spec_outer boxes t ord {}" "[0..<length boxes]"]
  by (simp_all add: spec_kept_def)

subsection \<open>The example inputs are regular calls\<close>

lemma abc_call_ok:
  "asserts_pass dets_abc scores_abc \<and> length (tdata dets_abc) = length (tdata scores_abc) \<and>
   desc_order (tdata scores_abc) (argsort_desc (tdata scores_abc))"
  by (simp add: asserts_pass_def dets_abc_def scores_abc_def cpu_float_def desc_order_def
      argsort_desc_def insert_desc_def upt_rec)

lemma four_call_ok:
  "asserts_pass dets_four scores_four \<and> length (tdata dets_four) = length (tdata scores_four) \<and>
   desc_order (tdata scores_four) (argsort_desc (tdata scores_four))"
  by (simp add: asserts_pass_def dets_four_def scores_four_def cpu_float_def desc_order_def
      argsort_desc_def insert_desc_def upt_rec)

lemma abc_order_unique:
  assumes "desc_order (tdata scores_abc) order"
  shows "order = [2, 0, 1]"
proof -
  from assms have len: "length order = 3" by (simp add: desc_order_def scores_abc_def)
  then obtain a b c where o: "order = [a, b, c]"
    by (auto simp: eval_nat_numeral length_Suc_conv)
  have r: "a < 3" "b < 3" "c < 3" "a \<noteq> b" "a \<noteq> c" "b \<noteq> c"
    using assms o by (auto simp: desc_order_def scores_abc_def)
  have s: "tdata scores_abc ! b \<le> tdata scores_abc ! a" "tdata scores_abc ! c \<le> tdata scores_abc ! a"
      "tdata scores_abc ! c \<le> tdata scores_abc ! b"
    using assms o by (auto simp: desc_order_def)
  have v: "tdata scores_abc ! 0 = 9 / 10" "tdata scores_abc ! 1 = 8 / 10"
      "tdata scores_abc ! 2 = 95 / 100"
    by (simp_all add: scores_abc_def)
  have a: "a = 0 \<or> a = 1 \<or> a = 2" and b: "b = 0 \<or> b = 1 \<or> b = 2" and c: "c = 0 \<or> c = 1 \<or> c = 2"
    using r(1,2,3) by auto
  have "a = 2"
    using a b c r(4,5,6) s v by auto
  moreover have "b = 0"
    using a b c r(4,5,6) s v by auto
  moreover have "c = 1"
    using a b c r(4,5,6) s v by auto
  ultimately show ?thesis using o by simp
qed

section \<open>Properties of the kernel\<close>

subsection \<open>Errors and the empty input\<close>




text \<open>
  C6: an input without boxes returns the empty index sequence.  The result does not
  depend on the scores, the sort or the threshold: it is returned at line 15, before
  the areas, the order and the flags exist.
\<close>

theorem empty_dets_returns_empty:
  "asserts_pass dets scores \<Longrightarrow> tdata dets = [] \<Longrightarrow>
     nms_cpu_kernel srt dets scores threshold = Inr []"
  by (simp add: nms_cpu_kernel_def asserts_pass_def)

theorem empty_dets_returns_empty_witness:
  "asserts_pass dets_none scores_one \<and> tdata dets_none = [] \<and>
   nms_cpu_kernel argsort_desc dets_none scores_one (1 / 2) = Inr []"
proof -
  have a: "asserts_pass dets_none scores_one"
    by (simp add: asserts_pass_def dets_none_def scores_one_def cpu_float_def)
  have b: "tdata dets_none = []" by (simp add: dets_none_def)
  show ?thesis using a b empty_dets_returns_empty [OF a b, of argsort_desc "1 / 2"] by simp
qed

subsection \<open>The result\<close>

text \<open>
  C5: the returned sequence consists exactly of the indices whose flag is still 0 when
  the double loop has finished, in ascending index order, and it has at most N
  elements.  The double loop does finish, without leaving its buffers.
\<close>

theorem kept_is_unflagged_ascending:
  assumes "asserts_pass dets scores" "length (tdata dets) = length (tdata scores)"
    "desc_order (tdata scores) (srt (tdata scores))"
  shows "\<exists>suppressed kept.
     outer_loop (tdata dets) (areas_t (tdata dets)) (srt (tdata scores)) threshold
       (length (tdata dets)) 0 (suppressed_t (length (tdata dets))) = Inr suppressed \<and>
     length suppressed = length (tdata dets) \<and>
     nms_cpu_kernel srt dets scores threshold = Inr kept \<and>
     kept = filter (\<lambda>k. suppressed ! k = 0) [0..<length (tdata dets)] \<and>
     set kept = {k. k < length (tdata dets) \<and> suppressed ! k = 0} \<and>
     sorted_wrt (<) kept \<and> length kept \<le> length (tdata dets)"
proof -
  let ?n = "length (tdata dets)"
  have o: "length (srt (tdata scores)) = ?n" "list_all (\<lambda>k. k < ?n) (srt (tdata scores))"
    using assms(2,3) by (simp_all add: desc_order_def)
  have "length (suppressed_t ?n) = ?n" "set (suppressed_t ?n) \<subseteq> {0,1}"
    by (auto simp: suppressed_t_def)
  from outer_loop_ok[OF o refl refl this, of 0 threshold]
  obtain s where s: "outer_loop (tdata dets) (areas_t (tdata dets)) (srt (tdata scores)) threshold ?n 0
       (suppressed_t ?n) = Inr s" "length s = ?n"
    by auto
  define kept where "kept = filter (\<lambda>k. s ! k = 0) [0..<?n]"
  have k: "nms_cpu_kernel srt dets scores threshold = Inr kept"
  proof (cases "tdata dets = []")
    case True
    then show ?thesis using assms(1) by (simp add: nms_cpu_kernel_def asserts_pass_def kept_def)
  next
    case False
    then show ?thesis using assms(1) s
      by (simp add: nms_cpu_kernel_def asserts_pass_def kept_def nonzero_eq0_def)
  qed
  have "set kept = {k. k < ?n \<and> s ! k = 0}" by (auto simp: kept_def)
  moreover have "sorted_wrt (<) kept" unfolding kept_def by (rule sorted_wrt_filter) simp
  moreover have "length kept \<le> ?n"
    unfolding kept_def using length_filter_le[of _ "[0..<?n]"] by simp
  ultimately show ?thesis
    by (intro exI[of _ s] exI[of _ kept] conjI s k) (simp_all add: kept_def)
qed

theorem kept_is_unflagged_ascending_witness:
  "asserts_pass dets_four scores_four \<and>
   length (tdata dets_four) = length (tdata scores_four) \<and>
   desc_order (tdata scores_four) (argsort_desc (tdata scores_four)) \<and>
   (\<exists>suppressed kept.
     outer_loop (tdata dets_four) (areas_t (tdata dets_four)) (argsort_desc (tdata scores_four))
       (3 / 10) (length (tdata dets_four)) 0 (suppressed_t (length (tdata dets_four))) =
       Inr suppressed \<and>
     length suppressed = length (tdata dets_four) \<and>
     nms_cpu_kernel argsort_desc dets_four scores_four (3 / 10) = Inr kept \<and>
     kept = filter (\<lambda>k. suppressed ! k = 0) [0..<length (tdata dets_four)] \<and>
     set kept = {k. k < length (tdata dets_four) \<and> suppressed ! k = 0} \<and>
     sorted_wrt (<) kept \<and> length kept \<le> length (tdata dets_four))"
  using four_call_ok
    kept_is_unflagged_ascending [of dets_four scores_four argsort_desc "3 / 10"]
  by blast

text \<open>
  C9: for a non-empty input the result contains the index at the first position of the
  order, which is the index of a box of maximal score: the inner loop marks only boxes
  at later positions.
\<close>

theorem top_ranked_box_is_kept:
  assumes "asserts_pass dets scores" "length (tdata dets) = length (tdata scores)"
    "desc_order (tdata scores) (srt (tdata scores))" "tdata dets \<noteq> []"
  shows "\<exists>kept. nms_cpu_kernel srt dets scores threshold = Inr kept \<and>
     srt (tdata scores) ! 0 \<in> set kept \<and>
     (\<forall>k<length (tdata scores). tdata scores ! k \<le> tdata scores ! (srt (tdata scores) ! 0))"
proof -
  let ?ord = "srt (tdata scores)"
  from assms(2,3,4) obtain i later where ord: "?ord = i # later"
    by (cases ?ord) (auto simp: desc_order_def)
  have d: "distinct (i # later)" "i < length (tdata dets)"
    using assms(2,3) ord by (auto simp: desc_order_def)
  have "i \<notin> spec_outer (tdata dets) threshold ?ord {}"
    unfolding ord using spec_outer_head_kept[OF d(1), of "{}"] by simp
  then have "?ord ! 0 \<in> set (spec_kept (tdata dets) ?ord threshold)"
    using d(2) ord by (simp add: spec_kept_mem)
  moreover have "\<forall>k<length (tdata scores). tdata scores ! k \<le> tdata scores ! (?ord ! 0)"
    using desc_order_head_max[OF assms(3)] by simp
  ultimately show ?thesis
    using kernel_refines[of dets scores srt threshold] assms(1,2,3) by simp
qed

theorem top_ranked_box_is_kept_witness:
  "asserts_pass dets_abc scores_abc \<and> length (tdata dets_abc) = length (tdata scores_abc) \<and>
   desc_order (tdata scores_abc) (argsort_desc (tdata scores_abc)) \<and> tdata dets_abc \<noteq> [] \<and>
   (\<exists>kept. nms_cpu_kernel argsort_desc dets_abc scores_abc (1 / 2) = Inr kept \<and>
      argsort_desc (tdata scores_abc) ! 0 \<in> set kept \<and>
      (\<forall>k<length (tdata scores_abc).
         tdata scores_abc ! k \<le> tdata scores_abc ! (argsort_desc (tdata scores_abc) ! 0)))"
proof -
  have ne: "tdata dets_abc \<noteq> []" by (simp add: dets_abc_def)
  show ?thesis
    using abc_call_ok ne top_ranked_box_is_kept [of dets_abc scores_abc argsort_desc "1 / 2"]
    by blast
qed



subsection \<open>The flags\<close>

text \<open>
  C8: every flag starts at 0; a step of the inner loop, and so the whole double loop,
  leaves each flag as it is or takes it from 0 to 1, never back; a box whose flag is 1 is
  skipped in both roles: the inner loop's body returns the flags untouched when the
  candidate is flagged, and so does the outer loop's body when the reference is.
\<close>

theorem flags_start_clear_and_only_get_set:
  "length (suppressed_t ndets) = ndets \<and> flagged (suppressed_t ndets) = {} \<and>
   set (suppressed_t ndets) \<subseteq> {0} \<and>
   (set s \<subseteq> {0, 1} \<and> inner_body dets areas order threshold i rj s = Inr s1 \<longrightarrow>
      set s1 \<subseteq> {0, 1} \<and> flags_only_set s s1) \<and>
   (set s \<subseteq> {0, 1} \<and> outer_loop dets areas order threshold ndets ri s = Inr s2 \<longrightarrow>
      set s2 \<subseteq> {0, 1} \<and> flags_only_set s s2) \<and>
   (rj < length order \<and> order ! rj < length s \<and> s ! (order ! rj) = 1 \<longrightarrow>
      inner_body dets areas order threshold i rj s = Inr s) \<and>
   (ri < length order \<and> order ! ri < length s \<and> s ! (order ! ri) = 1 \<longrightarrow>
      outer_body dets areas order threshold ndets ri s = Inr s)"
proof (intro conjI impI)
  show "length (suppressed_t ndets) = ndets" "flagged (suppressed_t ndets) = {}"
    "set (suppressed_t ndets) \<subseteq> {0}"
    by (auto simp: suppressed_t_def flagged_eq)
next
  assume "set s \<subseteq> {0, 1} \<and> inner_body dets areas order threshold i rj s = Inr s1"
  then show "set s1 \<subseteq> {0, 1}" "flags_only_set s s1"
    using inner_body_flags[of s dets areas order threshold i rj s1] by simp_all
next
  assume "set s \<subseteq> {0, 1} \<and> outer_loop dets areas order threshold ndets ri s = Inr s2"
  then show "set s2 \<subseteq> {0, 1}" "flags_only_set s s2"
    using outer_loop_flags[of s dets areas order threshold ndets ri s2] by simp_all
next
  assume "rj < length order \<and> order ! rj < length s \<and> s ! (order ! rj) = 1"
  then show "inner_body dets areas order threshold i rj s = Inr s"
    by (simp add: inner_body_def)
next
  assume "ri < length order \<and> order ! ri < length s \<and> s ! (order ! ri) = 1"
  then show "outer_body dets areas order threshold ndets ri s = Inr s"
    by (simp add: outer_body_def)
qed

theorem flags_start_clear_and_only_get_set_witness:
  "set [0, 0, 0] \<subseteq> {0, 1 :: 8 word} \<and>
   inner_body (tdata dets_abc) (areas_t (tdata dets_abc)) [2, 0, 1] (1 / 2) 0 2 [0, 0, 0] =
     Inr [0, 1, 0] \<and>
   outer_loop (tdata dets_abc) (areas_t (tdata dets_abc)) [2, 0, 1] (1 / 2) 3 0 [0, 0, 0] =
     Inr [0, 1, 0] \<and>
   flags_only_set [0, 0, 0] [0, 1, 0] \<and>
   (2 :: nat) < length [2, 0, 1 :: nat] \<and> [2, 0, 1] ! 2 < length [0, 1, 0 :: 8 word] \<and>
   [0, 1, 0 :: 8 word] ! ([2, 0, 1] ! 2) = 1 \<and>
   inner_body (tdata dets_abc) (areas_t (tdata dets_abc)) [2, 0, 1] (1 / 2) 0 2 [0, 1, 0] =
     Inr [0, 1, 0] \<and>
   outer_body (tdata dets_abc) (areas_t (tdata dets_abc)) [2, 0, 1] (1 / 2) 3 2 [0, 1, 0] =
     Inr [0, 1, 0]"
proof -
  have h1: "set [0, 0, 0] \<subseteq> {0, 1 :: 8 word}" by simp
  have h2: "inner_body (tdata dets_abc) (areas_t (tdata dets_abc)) [2, 0, 1] (1 / 2) 0 2 [0, 0, 0] =
     Inr [0, 1, 0]"
    by (simp add: run_simps dets_abc_def)
  have h3: "outer_loop (tdata dets_abc) (areas_t (tdata dets_abc)) [2, 0, 1] (1 / 2) 3 0 [0, 0, 0] =
     Inr [0, 1, 0]"
    by (simp add: run_simps dets_abc_def)
  have h4: "(2 :: nat) < length [2, 0, 1 :: nat] \<and> [2, 0, 1] ! 2 < length [0, 1, 0 :: 8 word] \<and>
     [0, 1, 0 :: 8 word] ! ([2, 0, 1] ! 2) = 1"
    by simp
  show ?thesis
    using h1 h2 h3 h4
      flags_start_clear_and_only_get_set [of 3 "[0, 0, 0]" "tdata dets_abc"
        "areas_t (tdata dets_abc)" "[2, 0, 1]" "1 / 2" 0 2 "[0, 1, 0]" 0 "[0, 1, 0]"]
      flags_start_clear_and_only_get_set [of 3 "[0, 1, 0]" "tdata dets_abc"
        "areas_t (tdata dets_abc)" "[2, 0, 1]" "1 / 2" 0 2 "[0, 1, 0]" 2 "[0, 1, 0]"]
    by blast
qed

subsection \<open>The algorithm\<close>



text \<open>
  C7: the scenario.  A = (0, 0, 10, 10) with score 0.9 at index 0, B = (1, 1, 11, 11) with
  score 0.8 at index 1, C = (50, 50, 60, 60) with score 0.95 at index 2, threshold 0.5.
  Whatever sort keeps the contract, the order is C, A, B and the result is the indices
  0 and 2: the pass of C over A and B marks nothing, the pass of A over B marks B; the
  overlap of A and B is 50/71, at least 0.5, and the overlaps of A and C and of B and C
  are 0.
\<close>

theorem scenario_abc:
  assumes "desc_order (tdata scores_abc) (srt (tdata scores_abc))"
  shows "srt (tdata scores_abc) = [2, 0, 1] \<and>
     nms_cpu_kernel srt dets_abc scores_abc (1 / 2) = Inr [0, 2] \<and>
     inner_loop (tdata dets_abc) (areas_t (tdata dets_abc)) [2, 0, 1] (1 / 2) 3 2 1 [0, 0, 0] =
       Inr [0, 0, 0] \<and>
     inner_loop (tdata dets_abc) (areas_t (tdata dets_abc)) [2, 0, 1] (1 / 2) 3 0 2 [0, 0, 0] =
       Inr [0, 1, 0] \<and>
     ovr (tdata dets_abc) (areas_t (tdata dets_abc)) 0 1 = Finite (50 / 71) \<and>
     ge_threshold (ovr (tdata dets_abc) (areas_t (tdata dets_abc)) 0 1) (1 / 2) \<and>
     ovr (tdata dets_abc) (areas_t (tdata dets_abc)) 0 2 = Finite 0 \<and>
     ovr (tdata dets_abc) (areas_t (tdata dets_abc)) 1 2 = Finite 0"
proof -
  have o: "srt (tdata scores_abc) = [2, 0, 1]"
    using abc_order_unique[OF assms] .
  have k: "nms_cpu_kernel srt dets_abc scores_abc (1 / 2) = Inr [0, 2]"
    using o by (simp add: nms_cpu_kernel_def Let_def) (simp add: run_simps dets_abc_def scores_abc_def)
  have l1: "inner_loop (tdata dets_abc) (areas_t (tdata dets_abc)) [2, 0, 1] (1 / 2) 3 2 1 [0, 0, 0] =
       Inr [0, 0, 0]"
    by (simp add: run_simps dets_abc_def)
  have l2: "inner_loop (tdata dets_abc) (areas_t (tdata dets_abc)) [2, 0, 1] (1 / 2) 3 0 2 [0, 0, 0] =
       Inr [0, 1, 0]"
    by (simp add: run_simps dets_abc_def)
  have v: "ovr (tdata dets_abc) (areas_t (tdata dets_abc)) 0 1 = Finite (50 / 71)"
     "ovr (tdata dets_abc) (areas_t (tdata dets_abc)) 0 2 = Finite 0"
     "ovr (tdata dets_abc) (areas_t (tdata dets_abc)) 1 2 = Finite 0"
    by (simp_all add: ovr_def areas_t_def fdiv_def dets_abc_def)
  have g: "ge_threshold (ovr (tdata dets_abc) (areas_t (tdata dets_abc)) 0 1) (1 / 2)"
    unfolding v(1) by simp
  show ?thesis using o k l1 l2 v g by simp
qed

theorem scenario_abc_witness:
  "desc_order (tdata scores_abc) (argsort_desc (tdata scores_abc)) \<and>
   argsort_desc (tdata scores_abc) = [2, 0, 1] \<and>
   nms_cpu_kernel argsort_desc dets_abc scores_abc (1 / 2) = Inr [0, 2]"
  using abc_call_ok scenario_abc [of argsort_desc] by simp

text \<open>
  C4: running the kernel again on the kept boxes alone, with their scores and the same
  threshold, keeps every one of them: the second result is all the positions of the
  kept sequence, which stand for the kept indices themselves.
\<close>

theorem rerun_on_kept_keeps_all:
  assumes "asserts_pass dets scores" "length (tdata dets) = length (tdata scores)"
    "desc_order (tdata scores) (srt (tdata scores))"
    "nms_cpu_kernel srt dets scores threshold = Inr kept"
    "desc_order (tdata (index_select scores kept)) (srt (tdata (index_select scores kept)))"
  shows "nms_cpu_kernel srt (index_select dets kept) (index_select scores kept) threshold =
           Inr [0..<length kept] \<and>
         map (\<lambda>k. kept ! k) [0..<length kept] = kept"
proof -
  let ?boxes = "tdata dets"
  let ?ord = "srt (tdata scores)"
  let ?R = "spec_outer ?boxes threshold ?ord {}"
  let ?boxes' = "tdata (index_select dets kept)"
  let ?ord' = "srt (tdata (index_select scores kept))"
  have kept: "kept = spec_kept ?boxes ?ord threshold"
    using kernel_refines[of dets scores srt threshold] assms(1-4) by simp
  have dk: "distinct kept" using kept by (simp add: spec_kept_props)
  have mem: "k < length ?boxes \<and> k \<notin> ?R" if "k \<in> set kept" for k
    using that kept by (simp add: spec_kept_mem)
  have inord: "k \<in> set ?ord" if "k \<in> set kept" for k
    using mem[OF that] desc_order_set[OF assms(3)] assms(2) by simp
  have len': "length ?boxes' = length kept" "length (tdata (index_select scores kept)) = length kept"
    by (simp_all add: index_select_def)
  have ap: "asserts_pass (index_select dets kept) (index_select scores kept)"
    using assms(1) by (simp add: asserts_pass_def index_select_def)
  have o': "distinct ?ord'" "\<And>a. a \<in> set ?ord' \<Longrightarrow> a < length kept"
    using assms(5) len'(2) by (auto simp: desc_order_def list_all_iff)
  have apart: "\<not> spec_suppresses (?boxes' ! a) (?boxes' ! b) threshold"
    if "a \<in> set ?ord'" "b \<in> set ?ord'" "a \<noteq> b" for a b
  proof -
    have ab: "a < length kept" "b < length kept" using that o'(2) by auto
    then have ne: "kept ! a \<noteq> kept ! b" using dk that(3) by (simp add: nth_eq_iff_index_eq)
    have ka: "kept ! a \<in> set kept" and kb: "kept ! b \<in> set kept" using ab by simp_all
    have "\<not> spec_suppresses (?boxes ! (kept ! a)) (?boxes ! (kept ! b)) threshold"
      using kept_do_not_suppress[of ?ord "kept ! a" "kept ! b" ?boxes threshold "{}"]
        assms(3) inord[OF ka] inord[OF kb] ne mem[OF ka] mem[OF kb]
      by (simp add: desc_order_def)
    then show ?thesis using ab by (simp add: index_select_def)
  qed
  have "spec_outer ?boxes' threshold ?ord' {} = {}"
    using spec_outer_apart[OF o'(1), of ?boxes' threshold "{}"] apart by blast
  then have "spec_kept ?boxes' ?ord' threshold = [0..<length kept]"
    using len'(1) by (simp add: spec_kept_def)
  moreover have "nms_cpu_kernel srt (index_select dets kept) (index_select scores kept) threshold =
     Inr (spec_kept ?boxes' ?ord' threshold)"
    using kernel_refines[of "index_select dets kept" "index_select scores kept" srt threshold]
      ap len' assms(5) by simp
  ultimately show ?thesis by (simp add: map_nth)
qed

theorem rerun_on_kept_keeps_all_witness:
  "asserts_pass dets_four scores_four \<and>
   length (tdata dets_four) = length (tdata scores_four) \<and>
   desc_order (tdata scores_four) (argsort_desc (tdata scores_four)) \<and>
   nms_cpu_kernel argsort_desc dets_four scores_four (3 / 10) = Inr [0, 2, 3] \<and>
   desc_order (tdata (index_select scores_four [0, 2, 3]))
     (argsort_desc (tdata (index_select scores_four [0, 2, 3]))) \<and>
   nms_cpu_kernel argsort_desc (index_select dets_four [0, 2, 3])
     (index_select scores_four [0, 2, 3]) (3 / 10) = Inr [0, 1, 2]"
proof -
  have k: "nms_cpu_kernel argsort_desc dets_four scores_four (3 / 10) = Inr [0, 2, 3]"
    by (simp add: run_simps dets_four_def scores_four_def)
  have d: "desc_order (tdata (index_select scores_four [0, 2, 3]))
     (argsort_desc (tdata (index_select scores_four [0, 2, 3])))"
    by (rule argsort_desc_ok)
  have u: "[0..<length [0, 2, 3 :: nat]] = [0, 1, 2]" by (simp add: upt_rec)
  show ?thesis
    using four_call_ok k d u
      rerun_on_kept_keeps_all [of dets_four scores_four argsort_desc "3 / 10" "[0, 2, 3]"]
    by simp
qed

subsection \<open>Two thresholds\<close>

text \<open>
  C3, as stated: for thresholds \<open>t1 \<le> t2\<close> in [0, 1] the result for \<open>t1\<close> has at most as
  many indices as the result for \<open>t2\<close>.  With the four boxes of \<open>dets_four\<close> the
  threshold 0.3 keeps three boxes and the threshold 0.5 keeps two: at 0.3 the first box
  suppresses the second, which at 0.5 survives and suppresses the third and the fourth.
\<close>

theorem threshold_monotone_counterexample:
  "(0 :: real) \<le> 3 / 10 \<and> (3 / 10 :: real) \<le> 1 / 2 \<and> (1 / 2 :: real) \<le> 1 \<and>
   nms_cpu_kernel argsort_desc dets_four scores_four (3 / 10) = Inr [0, 2, 3] \<and>
   nms_cpu_kernel argsort_desc dets_four scores_four (1 / 2) = Inr [0, 1] \<and>
   length [0, 1 :: nat] < length [0, 2, 3 :: nat]"
  by (simp add: run_simps dets_four_def scores_four_def)

text \<open>
  C3, amended: for thresholds \<open>t1 \<le> t2\<close> the overlap test marks at \<open>t1\<close> every pair it
  marks at \<open>t2\<close>, and the sizes of the results are ordered at the two extremes: when the
  run at \<open>t1\<close> keeps all N boxes so does the run at \<open>t2\<close>, and when the run at \<open>t2\<close>
  keeps a single box so does the run at \<open>t1\<close>.
\<close>

theorem threshold_monotone_at_extremes:
  assumes "asserts_pass dets scores" "length (tdata dets) = length (tdata scores)"
    "desc_order (tdata scores) (srt (tdata scores))" "t1 \<le> t2"
    "nms_cpu_kernel srt dets scores t1 = Inr kept1"
    "nms_cpu_kernel srt dets scores t2 = Inr kept2"
  shows "(\<forall>i j. ge_threshold (ovr (tdata dets) (areas_t (tdata dets)) i j) t2 \<longrightarrow>
            ge_threshold (ovr (tdata dets) (areas_t (tdata dets)) i j) t1) \<and>
     (length kept1 = length (tdata dets) \<longrightarrow> length kept2 = length (tdata dets)) \<and>
     (length kept2 = 1 \<longrightarrow> length kept1 = 1)"
proof (intro conjI impI allI)
  fix i j
  assume "ge_threshold (ovr (tdata dets) (areas_t (tdata dets)) i j) t2"
  then show "ge_threshold (ovr (tdata dets) (areas_t (tdata dets)) i j) t1"
    using assms(4) by (cases "ovr (tdata dets) (areas_t (tdata dets)) i j") auto
next
  let ?boxes = "tdata dets"
  let ?n = "length ?boxes"
  let ?ord = "srt (tdata scores)"
  have k1: "kept1 = spec_kept ?boxes ?ord t1" and k2: "kept2 = spec_kept ?boxes ?ord t2"
    using kernel_refines[of dets scores srt] assms(1,2,3,5,6) by simp_all
  have sub: "spec_outer ?boxes t ?ord {} \<subseteq> {0..<?n}" for t
  proof -
    have "set (tl ?ord) \<subseteq> set ?ord" by (cases ?ord) auto
    then show ?thesis
      using spec_outer_later[of ?boxes t ?ord "{}"] desc_order_set[OF assms(3)] assms(2) by auto
  qed
  {
    assume full: "length kept1 = ?n"
    have "k \<notin> spec_outer ?boxes t1 ?ord {}" if "k < ?n" for k
    proof
      assume "k \<in> spec_outer ?boxes t1 ?ord {}"
      then have "length (filter (\<lambda>k. k \<notin> spec_outer ?boxes t1 ?ord {}) [0..<?n]) < length [0..<?n]"
        using that by (intro length_filter_less[of k]) auto
      then show False using full k1 by (simp add: spec_kept_def)
    qed
    then have "spec_outer ?boxes t1 ?ord {} = {}" using sub[of t1] by auto
    then have "spec_outer ?boxes t2 ?ord {} = {}"
      using spec_outer_unchanged_mono[OF assms(4)] by blast
    then show "length kept2 = ?n" using k2 by (simp add: spec_kept_def)
  }
  {
    assume one: "length kept2 = 1"
    then have ne: "?ord \<noteq> []" using k2 spec_kept_props(2)[of ?boxes ?ord t2] assms(2,3)
      by (auto simp: desc_order_def)
    then obtain i later where ord: "?ord = i # later" by (cases ?ord) auto
    have d: "distinct (i # later)" "i < ?n" "\<And>j. j \<in> set later \<Longrightarrow> j < ?n"
      using assms(2,3) ord by (auto simp: desc_order_def list_all_iff)
    have st: "k \<in> set (i # later) \<longleftrightarrow> k < ?n" for k
      using desc_order_set[OF assms(3)] ord assms(2) by simp
    have i2: "i \<in> set kept2"
      using spec_outer_head_kept[OF d(1), of "{}" ?boxes t2] d(2) k2 ord by (simp add: spec_kept_mem)
    from one obtain x where "kept2 = [x]" by (cases kept2) auto
    with i2 have kx: "kept2 = [i]" by simp
    let ?S2 = "spec_inner ?boxes t2 i later {}"
    let ?S1 = "spec_inner ?boxes t1 i later {}"
    have "j \<in> spec_outer ?boxes t2 later ?S2" if "j \<in> set later" for j
    proof (rule ccontr)
      assume "j \<notin> spec_outer ?boxes t2 later ?S2"
      then have "j \<in> set kept2" using that d(3) k2 ord by (simp add: spec_kept_mem)
      then show False using kx that d(1) by auto
    qed
    then have "set later \<subseteq> ?S2"
      using spec_outer_all_marked[of later ?boxes t2 ?S2] d(1) by auto
    then have "set later \<subseteq> ?S1"
      using spec_suppresses_antimono[OF assms(4)] by (auto simp: spec_inner_eq)
    moreover have "?S1 \<subseteq> set later" by (auto simp: spec_inner_eq)
    ultimately have "?S1 = set later" by auto
    then have r1: "spec_outer ?boxes t1 ?ord {} = set later"
      unfolding ord by (simp add: spec_outer_all_flagged)
    have "filter (\<lambda>k. k \<notin> set later) [0..<?n] = filter (\<lambda>k. k = i) [0..<?n]"
    proof (intro filter_cong refl)
      fix k assume "k \<in> set [0..<?n]"
      then have "k = i \<or> k \<in> set later" using st[of k] by simp
      then show "(k \<notin> set later) = (k = i)" using d(1) by auto
    qed
    then have "kept1 = [i]" using k1 r1 d(2) by (simp add: spec_kept_def filter_upt_single)
    then show "length kept1 = 1" by simp
  }
qed

theorem threshold_monotone_at_extremes_witness:
  "asserts_pass dets_four scores_four \<and>
   length (tdata dets_four) = length (tdata scores_four) \<and>
   desc_order (tdata scores_four) (argsort_desc (tdata scores_four)) \<and>
   (1 / 10 :: real) \<le> 1 / 5 \<and>
   nms_cpu_kernel argsort_desc dets_four scores_four (1 / 10) = Inr [0] \<and>
   nms_cpu_kernel argsort_desc dets_four scores_four (1 / 5) = Inr [0] \<and>
   length [0 :: nat] = 1 \<and>
   ge_threshold (ovr (tdata dets_four) (areas_t (tdata dets_four)) 1 2) (1 / 5) \<and>
   ge_threshold (ovr (tdata dets_four) (areas_t (tdata dets_four)) 1 2) (1 / 10) \<and>
   (7 / 10 :: real) \<le> 9 / 10 \<and>
   nms_cpu_kernel argsort_desc dets_four scores_four (7 / 10) = Inr [0, 1, 2, 3] \<and>
   nms_cpu_kernel argsort_desc dets_four scores_four (9 / 10) = Inr [0, 1, 2, 3] \<and>
   length [0, 1, 2, 3 :: nat] = length (tdata dets_four)"
proof -
  have le: "(1 / 10 :: real) \<le> 1 / 5" "(7 / 10 :: real) \<le> 9 / 10" by simp_all
  have k1: "nms_cpu_kernel argsort_desc dets_four scores_four (1 / 10) = Inr [0]"
    by (simp add: run_simps dets_four_def scores_four_def)
  have k2: "nms_cpu_kernel argsort_desc dets_four scores_four (1 / 5) = Inr [0]"
    by (simp add: run_simps dets_four_def scores_four_def)
  have k3: "nms_cpu_kernel argsort_desc dets_four scores_four (7 / 10) = Inr [0, 1, 2, 3]"
    by (simp add: run_simps dets_four_def scores_four_def)
  have k4: "nms_cpu_kernel argsort_desc dets_four scores_four (9 / 10) = Inr [0, 1, 2, 3]"
    by (simp add: run_simps dets_four_def scores_four_def)
  have s: "ge_threshold (ovr (tdata dets_four) (areas_t (tdata dets_four)) 1 2) (1 / 5)"
    by (simp add: ovr_def areas_t_def fdiv_def dets_four_def)
  have n: "length [0, 1, 2, 3 :: nat] = length (tdata dets_four)" by (simp add: dets_four_def)
  show ?thesis
    using four_call_ok le k1 k2 k3 k4 s n
      threshold_monotone_at_extremes [of dets_four scores_four argsort_desc "1 / 10" "1 / 5"
        "[0]" "[0]"]
      threshold_monotone_at_extremes [of dets_four scores_four argsort_desc "7 / 10" "9 / 10"
        "[0, 1, 2, 3]" "[0, 1, 2, 3]"]
    by simp
qed

end
